theory Spec2Isabelle
  imports
    Main
    "HOL-Library.Finite_Map"
    "HOL-Library.Word"
    "HOL-Library.Char_ord"
    "HOL-Library.List_Lexorder"
begin

section \<open>Data model (package types)\<close>

text \<open>
  Go strings are \<^typ>\<open>string\<close>, Go maps are finite maps, a Go pointer that may be
  \<^verbatim>\<open>nil\<close> is an \<^typ>\<open>'a option\<close> (\<^term>\<open>None\<close> is \<^verbatim>\<open>nil\<close>). The engine
  never writes through a pointer to an \<^verbatim>\<open>ImageVulnerability\<close>, so the pointee is
  kept by value. The \<^verbatim>\<open>float64\<close> score of a finding is carried as its 64-bit
  pattern; nothing in the engine or the cache computes with it.
\<close>

record VulnerabilityFinding =
  Name :: string
  Description :: string
  Severity :: string
  PackageName :: string
  PackageVersion :: string
  FixVersion :: string
  Status :: string
  URI :: string
  ExploitAvailable :: string
  FixAvailable :: string
  Score :: "64 word"
  Type :: string

record ImageInfo =
  URI :: string
  Namespace :: string
  Workload :: string
  WorkloadType :: string

record ImageVulnerability =
  ImageURI :: string
  Repository :: string
  Tag :: string
  Vulnerabilities :: "(string, int) fmap"
  TotalCount :: int
  ScanStatus :: string
  LastScanTime :: "string option"
  Findings :: "VulnerabilityFinding list"

text \<open>The struct embeds a \<^verbatim>\<open>*ImageVulnerability\<close> and an \<^verbatim>\<open>ImageInfo\<close>.\<close>

record ImageVulnerabilityData =
  ImageVulnerability :: "ImageVulnerability option"
  ImageInfo :: ImageInfo

section \<open>Time\<close>

text \<open>
  An instant is a number of nanoseconds on one time line, a duration a number of
  nanoseconds. Every call of \<^verbatim>\<open>time.Now()\<close> in the source is a parameter
  \<open>now\<close> of the operation that makes it. \<^verbatim>\<open>t.After(u)\<close> is the strict
  comparison.
\<close>

type_synonym time = int
type_synonym duration = int

definition After :: "time \<Rightarrow> time \<Rightarrow> bool" where
  "After t u = (u < t)"

definition Add :: "time \<Rightarrow> duration \<Rightarrow> time" where
  "Add t d = t + d"

definition Minute :: duration where
  "Minute = 60 * 1000000000"

section \<open>The result cache (package cache)\<close>

record CacheEntry =
  Data :: "ImageVulnerability option"
  ExpiresAt :: time

text \<open>The mutex and the logger of the struct carry no data of the model.\<close>

record VulnerabilityCache =
  cache :: "(string, CacheEntry) fmap"
  ttl :: duration

definition NewVulnerabilityCache :: VulnerabilityCache where
  "NewVulnerabilityCache = \<lparr>cache = fmempty, ttl = 30 * Minute\<rparr>"

definition Get :: "time \<Rightarrow> VulnerabilityCache \<Rightarrow> string \<Rightarrow> ImageVulnerability option" where
  "Get now c imageURI =
     (case fmlookup (cache c) imageURI of
        None \<Rightarrow> None
      | Some entry \<Rightarrow> if After now (ExpiresAt entry) then None else Data entry)"

definition Set :: "time \<Rightarrow> string \<Rightarrow> ImageVulnerability option \<Rightarrow> VulnerabilityCache
    \<Rightarrow> VulnerabilityCache" where
  "Set now imageURI vulnerability c =
     c\<lparr>cache := fmupd imageURI \<lparr>Data = vulnerability, ExpiresAt = Add now (ttl c)\<rparr> (cache c)\<rparr>"

text \<open>
  The two \<^verbatim>\<open>range\<close> loops over the map. Go leaves the order of a \<^verbatim>\<open>range\<close>
  over a map open; the loops below take the keys in a list, and \<open>range_keys\<close> fixes
  the sorted one. The lemmas \<open>cleanup_range_filter\<close> and \<open>stats_range_count\<close> show
  that any other duplicate-free order of the same keys gives the same result.
\<close>

fun cleanup_range :: "time \<Rightarrow> string list \<Rightarrow> (string, CacheEntry) fmap
    \<Rightarrow> (string, CacheEntry) fmap" where
  "cleanup_range now [] m = m"
| "cleanup_range now (imageURI # rest) m =
     (case fmlookup m imageURI of
        None \<Rightarrow> cleanup_range now rest m
      | Some entry \<Rightarrow>
          if After now (ExpiresAt entry) then cleanup_range now rest (fmdrop imageURI m)
          else cleanup_range now rest m)"

fun stats_range :: "time \<Rightarrow> (string, CacheEntry) fmap \<Rightarrow> string list \<Rightarrow> nat" where
  "stats_range now m [] = 0"
| "stats_range now m (imageURI # rest) =
     (case fmlookup m imageURI of
        None \<Rightarrow> stats_range now m rest
      | Some entry \<Rightarrow>
          if After now (ExpiresAt entry) then Suc (stats_range now m rest)
          else stats_range now m rest)"

definition range_keys :: "(string, 'v) fmap \<Rightarrow> string list" where
  "range_keys m = sorted_list_of_fset (fmdom m)"

definition cleanup :: "time \<Rightarrow> VulnerabilityCache \<Rightarrow> VulnerabilityCache" where
  "cleanup now c = c\<lparr>cache := cleanup_range now (range_keys (cache c)) (cache c)\<rparr>"

definition Stats :: "time \<Rightarrow> VulnerabilityCache \<Rightarrow> nat \<times> nat" where
  "Stats now c =
     (fcard (fmdom (cache c)), stats_range now (cache c) (range_keys (cache c)))"

text \<open>What the loops compute, as a predicate on one key of a map.\<close>

definition expired :: "time \<Rightarrow> (string, CacheEntry) fmap \<Rightarrow> string \<Rightarrow> bool" where
  "expired now m k =
     (case fmlookup m k of None \<Rightarrow> False | Some entry \<Rightarrow> After now (ExpiresAt entry))"

section \<open>The collection engine (package engine)\<close>

datatype error = Error string

text \<open>
  \<^verbatim>\<open>GetImageVulnerabilities\<close> of the vulnerability source, as it answers during one
  call or one cycle: an error, or a pointer (possibly \<^verbatim>\<open>nil\<close>) with a nil error.
\<close>

type_synonym VulnerabilitySource = "string \<Rightarrow> error + ImageVulnerability option"

text \<open>
  The engine's mutable fields. The field \<^verbatim>\<open>cache\<close> of the struct is
  \<open>engine_cache\<close> here, the name \<open>cache\<close> being the cache's own map.
\<close>

record Engine =
  engine_cache :: VulnerabilityCache
  vulnerabilityData :: "(string, ImageVulnerabilityData) fmap"
  lastCollectionTime :: time

text \<open>The zero \<^verbatim>\<open>time.Time\<close> of a fresh engine is the instant 0.\<close>

definition NewEngine :: Engine where
  "NewEngine =
     \<lparr>engine_cache = NewVulnerabilityCache, vulnerabilityData = fmempty, lastCollectionTime = 0\<rparr>"

text \<open>
  \<open>getImageVulnerability\<close> run without interruption: \<open>tGet\<close> and \<open>tSet\<close> are the
  clock readings inside \<open>Get\<close> and \<open>Set\<close>. The third component of the result lists
  the calls made to the vulnerability source.
\<close>

definition getImageVulnerability :: "VulnerabilitySource \<Rightarrow> time \<Rightarrow> time \<Rightarrow> string \<Rightarrow> Engine
    \<Rightarrow> (error + ImageVulnerability option) \<times> Engine \<times> string list" where
  "getImageVulnerability src tGet tSet imageURI e =
     (case Get tGet (engine_cache e) imageURI of
        Some cachedVuln \<Rightarrow> (Inr (Some cachedVuln), e, [])
      | None \<Rightarrow>
          (case src imageURI of
             Inl err \<Rightarrow> (Inl err, e, [imageURI])
           | Inr vuln \<Rightarrow>
               (Inr vuln, e\<lparr>engine_cache := Set tSet imageURI vuln (engine_cache e)\<rparr>,
                [imageURI])))"

definition GetVulnerabilityData :: "Engine
    \<Rightarrow> (string, ImageVulnerabilityData) fmap \<times> time" where
  "GetVulnerabilityData e = (vulnerabilityData e, lastCollectionTime e)"

section \<open>One collection cycle\<close>

text \<open>
  A cycle starts one goroutine per discovered image. The goroutines share the cache
  and the map \<open>newVulnerabilityData\<close>, each behind its own lock, so a cycle is an
  interleaving of their atomic actions. A goroutine is at one of these points:
  before the send on the semaphore channel (\<open>Spawned\<close>); holding a slot, before
  \<open>Get\<close> (\<open>Acquired\<close>); waiting for the vulnerability source after a cache miss
  (\<open>Calling\<close>); back from the source with a result, before \<open>Set\<close> (\<open>Fetched\<close>);
  back from \<open>getImageVulnerability\<close> with a nil error, before the write to the map
  (\<open>Returned\<close>); or gone, its slot released and \<^verbatim>\<open>wg.Done()\<close> called
  (\<open>Finished\<close>).
\<close>

datatype worker =
    Spawned ImageInfo
  | Acquired ImageInfo
  | Calling ImageInfo
  | Fetched ImageInfo "ImageVulnerability option"
  | Returned ImageInfo "ImageVulnerability option"
  | Finished

fun holding :: "worker \<Rightarrow> bool" where
  "holding (Spawned img) = False"
| "holding (Acquired img) = True"
| "holding (Calling img) = True"
| "holding (Fetched img vuln) = True"
| "holding (Returned img vuln) = True"
| "holding Finished = False"


text \<open>\<^verbatim>\<open>make(chan struct{}, 10)\<close>: the buffer of the semaphore channel.\<close>

definition semaphoreCapacity :: nat where
  "semaphoreCapacity = 10"

record CycleState =
  eng :: Engine
  workers :: "worker list"
  newVulnerabilityData :: "(string, ImageVulnerabilityData) fmap"

definition setWorker :: "nat \<Rightarrow> worker \<Rightarrow> CycleState \<Rightarrow> CycleState" where
  "setWorker i w s = s\<lparr>workers := (workers s)[i := w]\<rparr>"

text \<open>
  The next atomic action of goroutine \<open>i\<close>, found at point \<open>w\<close>, with clock reading
  \<open>now\<close>. A send on the full channel blocks: the goroutine stays where it is.
\<close>

fun work :: "VulnerabilitySource \<Rightarrow> time \<Rightarrow> nat \<Rightarrow> worker \<Rightarrow> CycleState \<Rightarrow> CycleState" where
  "work src now i (Spawned imgInfo) s =
     (if length (filter holding (workers s)) < semaphoreCapacity
      then setWorker i (Acquired imgInfo) s else s)"
| "work src now i (Acquired imgInfo) s =
     (case Get now (engine_cache (eng s)) (URI imgInfo) of
        Some cachedVuln \<Rightarrow> setWorker i (Returned imgInfo (Some cachedVuln)) s
      | None \<Rightarrow> setWorker i (Calling imgInfo) s)"
| "work src now i (Calling imgInfo) s =
     (case src (URI imgInfo) of
        Inl err \<Rightarrow> setWorker i Finished s
      | Inr vuln \<Rightarrow> setWorker i (Fetched imgInfo vuln) s)"
| "work src now i (Fetched imgInfo vuln) s =
     setWorker i (Returned imgInfo vuln)
       (s\<lparr>eng := (eng s)\<lparr>engine_cache := Set now (URI imgInfo) vuln (engine_cache (eng s))\<rparr>\<rparr>)"
| "work src now i (Returned imgInfo vuln) s =
     setWorker i Finished
       (s\<lparr>newVulnerabilityData :=
            fmupd (URI imgInfo) \<lparr>ImageVulnerability = vuln, ImageInfo = imgInfo\<rparr>
              (newVulnerabilityData s)\<rparr>)"
| "work src now i Finished s = s"

text \<open>
  What the scheduler picks next: a goroutine of the cycle, or the cache's own cleanup
  goroutine, which shares the cache with the cycle.
\<close>

datatype event = Work nat | CleanupTick

fun exec :: "VulnerabilitySource \<Rightarrow> time \<Rightarrow> event \<Rightarrow> CycleState \<Rightarrow> CycleState" where
  "exec src now (Work i) s =
     (if i < length (workers s) then work src now i (workers s ! i) s else s)"
| "exec src now CleanupTick s =
     s\<lparr>eng := (eng s)\<lparr>engine_cache := cleanup now (engine_cache (eng s))\<rparr>\<rparr>"

text \<open>\<open>clock k\<close> is the clock reading of the \<open>k\<close>-th scheduled action.\<close>

fun run :: "VulnerabilitySource \<Rightarrow> (nat \<Rightarrow> time) \<Rightarrow> nat \<Rightarrow> event list \<Rightarrow> CycleState
    \<Rightarrow> CycleState" where
  "run src clock k [] s = s"
| "run src clock k (ev # evs) s = run src clock (Suc k) evs (exec src (clock k) ev s)"

definition startCycle :: "ImageInfo list \<Rightarrow> Engine \<Rightarrow> CycleState" where
  "startCycle images e =
     \<lparr>eng = e, workers = map Spawned images, newVulnerabilityData = fmempty\<rparr>"

text \<open>
  \<^verbatim>\<open>wg.Wait()\<close>: whatever the interleaving so far, the goroutines still running are
  scheduled until all are gone. Two rounds over the goroutines, each given the five
  actions of its longest path, are enough; a goroutine that is gone does nothing.
\<close>

definition wgRound :: "nat \<Rightarrow> event list" where
  "wgRound n = concat (map (\<lambda>i. replicate 5 (Work i)) [0..<n])"

definition wgWait :: "nat \<Rightarrow> event list" where
  "wgWait n = wgRound n @ wgRound n"

definition cycleEnd :: "VulnerabilitySource \<Rightarrow> (nat \<Rightarrow> time) \<Rightarrow> event list \<Rightarrow> ImageInfo list
    \<Rightarrow> Engine \<Rightarrow> CycleState" where
  "cycleEnd src clock sched images e =
     run src clock 0 (sched @ wgWait (length images)) (startCycle images e)"

text \<open>
  \<open>collectVulnerabilities\<close>: \<open>discovered\<close> is what \<^verbatim>\<open>DiscoverImages\<close> returns,
  \<open>sched\<close> the interleaving of the goroutines up to the wait, \<open>tPublish\<close> the clock
  reading stored in \<open>lastCollectionTime\<close>. The result is the returned error
  (\<^term>\<open>None\<close> is \<^verbatim>\<open>nil\<close>) and the engine afterwards.
\<close>

definition collectVulnerabilities :: "(error + ImageInfo list) \<Rightarrow> VulnerabilitySource
    \<Rightarrow> (nat \<Rightarrow> time) \<Rightarrow> event list \<Rightarrow> time \<Rightarrow> Engine \<Rightarrow> error option \<times> Engine" where
  "collectVulnerabilities discovered src clock sched tPublish e =
     (case discovered of
        Inl err \<Rightarrow> (Some err, e)
      | Inr images \<Rightarrow>
          (let s = cycleEnd src clock sched images e
           in (None, (eng s)\<lparr>vulnerabilityData := newVulnerabilityData s,
                              lastCollectionTime := tPublish\<rparr>)))"

section \<open>The cycle loop\<close>

text \<open>
  \<open>Start\<close> runs one cycle at once and one more at every tick until it is cancelled,
  logging and dropping the error of each. The inputs of a cycle are what its
  environment does during it: the answer of discovery, the source, the interleaving
  and the clock. \<open>Start\<close> below takes the inputs of the cycles run before the
  cancellation and gives the engine states a reader can see: the one before the first
  cycle has published, and the one after each cycle.
\<close>

record CycleInput =
  in_discovered :: "error + ImageInfo list"
  in_source :: VulnerabilitySource
  in_clock :: "nat \<Rightarrow> time"
  in_schedule :: "event list"
  in_publishedAt :: time

definition cycle :: "CycleInput \<Rightarrow> Engine \<Rightarrow> Engine" where
  "cycle inp e =
     snd (collectVulnerabilities (in_discovered inp) (in_source inp) (in_clock inp)
            (in_schedule inp) (in_publishedAt inp) e)"

fun Start :: "CycleInput list \<Rightarrow> Engine \<Rightarrow> Engine list" where
  "Start [] e = [e]"
| "Start (inp # rest) e = e # Start rest (cycle inp e)"

section \<open>Predicates used in the proofs\<close>


text \<open>
  Progress of one goroutine: the number of atomic actions it still has on its longest
  path, and whether its next action can happen (only the send on a full channel
  cannot).
\<close>

fun steps_left :: "worker \<Rightarrow> nat" where
  "steps_left (Spawned img) = 5"
| "steps_left (Acquired img) = 4"
| "steps_left (Calling img) = 3"
| "steps_left (Fetched img vuln) = 2"
| "steps_left (Returned img vuln) = 1"
| "steps_left Finished = 0"

definition can_move :: "CycleState \<Rightarrow> nat \<Rightarrow> bool" where
  "can_move s i =
     ((\<forall>img. workers s ! i \<noteq> Spawned img) \<or>
      length (filter holding (workers s)) < semaphoreCapacity)"

definition parked :: "worker \<Rightarrow> bool" where
  "parked w = (w = Finished \<or> (\<exists>img. w = Spawned img))"

text \<open>
  Key integrity. A result echoes a request when it is a non-nil pointer to a result
  whose \<open>ImageURI\<close> is the requested one; a source echoes when every result it
  returns with a nil error does. A cache entry holding a nil pointer is never served
  (the engine takes a nil from \<open>Get\<close> as a miss), so it is left out of the cache's
  invariant.
\<close>

definition result_echoes :: "string \<Rightarrow> ImageVulnerability option \<Rightarrow> bool" where
  "result_echoes uri vuln = (case vuln of None \<Rightarrow> False | Some v \<Rightarrow> ImageURI v = uri)"

definition source_echoes :: "VulnerabilitySource \<Rightarrow> bool" where
  "source_echoes src = (\<forall>uri vuln. src uri = Inr vuln \<longrightarrow> result_echoes uri vuln)"

definition snapshot_keys_ok :: "(string, ImageVulnerabilityData) fmap \<Rightarrow> bool" where
  "snapshot_keys_ok m = fmpred (\<lambda>k d. result_echoes k (ImageVulnerability d)) m"

definition cache_keys_ok :: "VulnerabilityCache \<Rightarrow> bool" where
  "cache_keys_ok c =
     fmpred (\<lambda>k entry. Data entry = None \<or> result_echoes k (Data entry)) (cache c)"

fun worker_echoes :: "worker \<Rightarrow> bool" where
  "worker_echoes (Fetched img vuln) = result_echoes (URI img) vuln"
| "worker_echoes (Returned img vuln) = result_echoes (URI img) vuln"
| "worker_echoes w = True"

definition cycle_keys_ok :: "CycleState \<Rightarrow> bool" where
  "cycle_keys_ok s =
     (cache_keys_ok (engine_cache (eng s)) \<and> list_all worker_echoes (workers s) \<and>
      snapshot_keys_ok (newVulnerabilityData s))"

definition engine_keys_ok :: "Engine \<Rightarrow> bool" where
  "engine_keys_ok e = (cache_keys_ok (engine_cache e) \<and> snapshot_keys_ok (vulnerabilityData e))"

text \<open>
  Isolation of one failing image \<open>uF\<close>. Goroutine \<open>i\<close> works on image \<open>i\<close>; it
  carries a result only for another key than \<open>uF\<close>; once it is gone, its image is in
  the new map unless its key is \<open>uF\<close>. The new map has keys of the discovered images
  only, never \<open>uF\<close>, and the cache has nothing to serve under \<open>uF\<close> at any reading of
  the clock.
\<close>

fun tracks :: "string \<Rightarrow> (string, ImageVulnerabilityData) fmap \<Rightarrow> ImageInfo \<Rightarrow> worker \<Rightarrow> bool" where
  "tracks uF data img0 (Spawned img) = (img = img0)"
| "tracks uF data img0 (Acquired img) = (img = img0)"
| "tracks uF data img0 (Calling img) = (img = img0)"
| "tracks uF data img0 (Fetched img vuln) = (img = img0 \<and> URI img \<noteq> uF)"
| "tracks uF data img0 (Returned img vuln) = (img = img0 \<and> URI img \<noteq> uF)"
| "tracks uF data img0 Finished = (URI img0 = uF \<or> URI img0 \<in> fmdom' data)"

definition isolating :: "ImageInfo list \<Rightarrow> string \<Rightarrow> (nat \<Rightarrow> time) \<Rightarrow> CycleState \<Rightarrow> bool" where
  "isolating images uF clock s =
     (length (workers s) = length images \<and>
      (\<forall>i<length images. tracks uF (newVulnerabilityData s) (images ! i) (workers s ! i)) \<and>
      fmdom' (newVulnerabilityData s) \<subseteq> URI ` set images - {uF} \<and>
      (\<forall>k. Get (clock k) (engine_cache (eng s)) uF = None))"

text \<open>
  A key \<open>uF\<close> that the cycle never stores under: no goroutine is about to call \<open>Set\<close>
  for it, and the cache's entry under it is still \<open>entry0\<close>, or has been deleted if
  a cleanup ran (\<open>swept\<close>).
\<close>

fun stores_under :: "string \<Rightarrow> worker \<Rightarrow> bool" where
  "stores_under uF (Fetched img vuln) = (URI img = uF)"
| "stores_under uF w = False"

definition untouched :: "string \<Rightarrow> CacheEntry option \<Rightarrow> bool \<Rightarrow> CycleState \<Rightarrow> bool" where
  "untouched uF entry0 swept s =
     (list_all (\<lambda>w. \<not> stores_under uF w) (workers s) \<and>
      (fmlookup (cache (engine_cache (eng s))) uF = entry0 \<or>
       swept \<and> fmlookup (cache (engine_cache (eng s))) uF = None))"

section \<open>Values used in the examples\<close>

definition vuln_of :: "string \<Rightarrow> ImageVulnerability" where
  "vuln_of uri =
     \<lparr>ImageURI = uri, Repository = ''test-repo'', Tag = ''test-tag'',
      Vulnerabilities = fmupd ''LOW'' 1 fmempty, TotalCount = 1,
      ScanStatus = ''COMPLETE'', LastScanTime = None, Findings = []\<rparr>"

definition small_cache :: VulnerabilityCache where
  "small_cache = \<lparr>cache = fmempty, ttl = 30\<rparr>"

definition mixed_cache :: VulnerabilityCache where
  "mixed_cache =
     \<lparr>cache = fmupd ''fresh'' \<lparr>Data = Some (vuln_of ''fresh''), ExpiresAt = 5\<rparr>
        (fmupd ''expired1'' \<lparr>Data = Some (vuln_of ''expired1''), ExpiresAt = 1\<rparr> fmempty),
      ttl = 30\<rparr>"

definition image_of :: "string \<Rightarrow> ImageInfo" where
  "image_of uri =
     \<lparr>URI = uri, Namespace = ''default'', Workload = ''test'', WorkloadType = ''Deployment''\<rparr>"

definition three_images :: "ImageInfo list" where
  "three_images = [image_of ''app1:v1'', image_of ''app2:v2'', image_of ''app3:v3'']"

definition mock_source :: VulnerabilitySource where
  "mock_source uri = Inr (Some (vuln_of uri))"

definition failing_source :: VulnerabilitySource where
  "failing_source uri =
     (if uri = ''app2:v2'' then Inl (Error ''vulnerability source error'')
      else Inr (Some (vuln_of uri)))"

definition broken_source :: VulnerabilitySource where
  "broken_source uri = Inl (Error ''vulnerability source error'')"

definition stale_engine :: Engine where
  "stale_engine =
     \<lparr>engine_cache = mixed_cache, vulnerabilityData = fmempty, lastCollectionTime = 0\<rparr>"

definition tick_clock :: "nat \<Rightarrow> time" where
  "tick_clock k = 100 + int k"

definition some_schedule :: "event list" where
  "some_schedule =
     [Work 2, Work 0, Work 2, CleanupTick, Work 1, Work 0, Work 1, Work 2, Work 1, Work 0]"

definition three_cycles :: "CycleInput list" where
  "three_cycles =
     [\<lparr>in_discovered = Inr three_images, in_source = failing_source, in_clock = tick_clock,
       in_schedule = some_schedule, in_publishedAt = 200\<rparr>,
      \<lparr>in_discovered = Inl (Error ''cloud provider error''), in_source = mock_source,
       in_clock = tick_clock, in_schedule = [], in_publishedAt = 300\<rparr>,
      \<lparr>in_discovered = Inr [image_of ''app1:v1''], in_source = broken_source,
       in_clock = tick_clock, in_schedule = [Work 0], in_publishedAt = 400\<rparr>]"



section \<open>Facts about the cache\<close>

lemma Get_Set_same:
  "Get t (Set t0 imageURI v c) imageURI = (if After t (Add t0 (ttl c)) then None else v)"
  by (simp add: Get_def Set_def)

lemma expired_fmdrop: "expired now (fmdrop k m) k' = (k' \<noteq> k \<and> expired now m k')"
  by (simp add: expired_def)

text \<open>
  The cleanup loop, over any list of keys, deletes the expired entries under the keys
  it visits and nothing else.
\<close>

lemma cleanup_range_filter:
  "cleanup_range now ks m = fmfilter (\<lambda>k. \<not> (k \<in> set ks \<and> expired now m k)) m"
proof (induction ks arbitrary: m)
  case Nil
  show ?case by simp
next
  case (Cons k ks)
  show ?case
  proof (cases "fmlookup m k")
    case None
    then have "\<not> expired now m k" by (simp add: expired_def)
    then have "fmfilter (\<lambda>k'. \<not> (k' \<in> set ks \<and> expired now m k')) m
        = fmfilter (\<lambda>k'. \<not> (k' \<in> set (k # ks) \<and> expired now m k')) m"
      by (intro fmap_ext) auto
    with None Cons.IH [of m] show ?thesis by simp
  next
    case (Some entry)
    show ?thesis
    proof (cases "After now (ExpiresAt entry)")
      case True
      have "fmfilter (\<lambda>k'. \<not> (k' \<in> set ks \<and> expired now (fmdrop k m) k')) (fmdrop k m)
          = fmfilter (\<lambda>k'. \<not> (k' \<in> set (k # ks) \<and> expired now m k')) m"
        using Some True by (intro fmap_ext) (auto simp: expired_fmdrop expired_def)
      with Some True Cons.IH [of "fmdrop k m"] show ?thesis by simp
    next
      case False
      with Some have "\<not> expired now m k" by (simp add: expired_def)
      then have "fmfilter (\<lambda>k'. \<not> (k' \<in> set ks \<and> expired now m k')) m
          = fmfilter (\<lambda>k'. \<not> (k' \<in> set (k # ks) \<and> expired now m k')) m"
        by (intro fmap_ext) auto
      with Some False Cons.IH [of m] show ?thesis by simp
    qed
  qed
qed

lemma set_range_keys: "set (range_keys m) = fmdom' m"
  by (simp add: range_keys_def fmdom'_alt_def)

lemma distinct_range_keys: "distinct (range_keys m)"
  by (simp add: range_keys_def sorted_list_of_fset.rep_eq)

lemma cleanup_cache:
  "cache (cleanup now c) = fmfilter (\<lambda>k. \<not> expired now (cache c) k) (cache c)"
  unfolding cleanup_def
  by (simp add: cleanup_range_filter set_range_keys) (rule fmfilter_cong, auto simp: fmdom'I)

lemma ttl_cleanup: "ttl (cleanup now c) = ttl c"
  by (simp add: cleanup_def)

lemma lookup_cleanup:
  "fmlookup (cache (cleanup now c)) k =
     (case fmlookup (cache c) k of
        None \<Rightarrow> None
      | Some entry \<Rightarrow> if After now (ExpiresAt entry) then None else Some entry)"
  by (simp add: cleanup_cache expired_def split: option.splits)

text \<open>The counting loop, over any duplicate-free list of keys.\<close>

lemma stats_range_count:
  "distinct ks \<Longrightarrow> stats_range now m ks = card {k \<in> set ks. expired now m k}"
proof (induction ks)
  case Nil
  show ?case by simp
next
  case (Cons k ks)
  then have IH: "stats_range now m ks = card {k \<in> set ks. expired now m k}"
    and nk: "k \<notin> set ks"
    by simp_all
  show ?case
  proof (cases "expired now m k")
    case True
    then have "{k' \<in> set (k # ks). expired now m k'}
        = insert k {k' \<in> set ks. expired now m k'}"
      by auto
    moreover have "k \<notin> {k' \<in> set ks. expired now m k'}" using nk by simp
    ultimately have "card {k' \<in> set (k # ks). expired now m k'}
        = Suc (card {k' \<in> set ks. expired now m k'})"
      by simp
    with True IH show ?thesis by (auto simp: expired_def split: option.splits)
  next
    case False
    then have "{k' \<in> set (k # ks). expired now m k'} = {k' \<in> set ks. expired now m k'}"
      by auto
    with False IH show ?thesis by (auto simp: expired_def split: option.splits)
  qed
qed

lemma Stats_count:
  "Stats now c
     = (fcard (fmdom (cache c)), card {k \<in> fmdom' (cache c). expired now (cache c) k})"
  by (simp add: Stats_def stats_range_count distinct_range_keys set_range_keys)

lemma cleanup_noop:
  assumes "\<And>k entry. fmlookup (cache c) k = Some entry \<Longrightarrow> \<not> After now (ExpiresAt entry)"
  shows "cleanup now c = c"
proof -
  have "cache (cleanup now c) = cache c"
    by (rule fmap_ext) (use assms in \<open>auto simp: lookup_cleanup split: option.splits\<close>)
  then show ?thesis by (simp add: cleanup_def)
qed

lemma Stats_none_expired:
  assumes "\<And>k entry. fmlookup (cache c) k = Some entry \<Longrightarrow> \<not> After now (ExpiresAt entry)"
  shows "snd (Stats now c) = 0"
proof -
  have "{k \<in> fmdom' (cache c). expired now (cache c) k} = {}"
    using assms by (auto simp: expired_def split: option.splits)
  then show ?thesis by (simp add: Stats_count)
qed

subsection \<open>Expiry\<close>

text \<open>
  Claim C4. An entry stored by \<open>Set\<close> at \<open>t0\<close> in a cache with TTL \<open>ttl c\<close> is
  returned by \<open>Get\<close> at every time strictly before \<open>t0 + ttl c\<close>. At every time
  strictly after it \<open>Get\<close> reports a miss, and the entry is still stored in the cache
  that \<open>Get\<close> read: \<open>Get\<close> holds the read lock and assigns nothing, which is why it
  returns no cache. A cleanup pass at such a time is what removes the entry.
\<close>

theorem Get_within_and_after_ttl:
  "(t < Add t0 (ttl c) \<longrightarrow> Get t (Set t0 imageURI (Some v) c) imageURI = Some v) \<and>
   (Add t0 (ttl c) < t \<longrightarrow>
      Get t (Set t0 imageURI (Some v) c) imageURI = None \<and>
      fmlookup (cache (Set t0 imageURI (Some v) c)) imageURI
        = Some \<lparr>Data = Some v, ExpiresAt = Add t0 (ttl c)\<rparr> \<and>
      fmlookup (cache (cleanup t (Set t0 imageURI (Some v) c))) imageURI = None)"
proof -
  let ?c1 = "Set t0 imageURI (Some v) c"
  have stored: "fmlookup (cache ?c1) imageURI
      = Some \<lparr>Data = Some v, ExpiresAt = Add t0 (ttl c)\<rparr>"
    by (simp add: Set_def)
  have before: "t < Add t0 (ttl c) \<longrightarrow> Get t ?c1 imageURI = Some v"
    by (simp add: Get_Set_same After_def)
  have after: "Add t0 (ttl c) < t \<longrightarrow> Get t ?c1 imageURI = None"
    by (simp add: Get_Set_same After_def)
  have swept: "Add t0 (ttl c) < t \<longrightarrow> fmlookup (cache (cleanup t ?c1)) imageURI = None"
    using stored by (simp add: cleanup_cache expired_def After_def)
  from stored before after swept show ?thesis by blast
qed

theorem Get_within_and_after_ttl_witness:
  "Get 129 (Set 100 ''app:v1'' (Some (vuln_of ''app:v1'')) small_cache) ''app:v1''
     = Some (vuln_of ''app:v1'') \<and>
   Get 131 (Set 100 ''app:v1'' (Some (vuln_of ''app:v1'')) small_cache) ''app:v1'' = None \<and>
   fmlookup (cache (Set 100 ''app:v1'' (Some (vuln_of ''app:v1'')) small_cache)) ''app:v1''
     = Some \<lparr>Data = Some (vuln_of ''app:v1''), ExpiresAt = 130\<rparr> \<and>
   fmlookup (cache (cleanup 131 (Set 100 ''app:v1'' (Some (vuln_of ''app:v1'')) small_cache)))
     ''app:v1'' = None"
  using Get_within_and_after_ttl [of 129 100 small_cache "''app:v1''" "vuln_of ''app:v1''"]
    Get_within_and_after_ttl [of 131 100 small_cache "''app:v1''" "vuln_of ''app:v1''"]
  by (simp add: Add_def small_cache_def)

text \<open>
  Claim C10. The expiry instant itself is still inside the lifetime of an entry: a
  \<open>Get\<close> at exactly \<open>ExpiresAt\<close> returns the stored pointer, a stored result is
  missed exactly at the times strictly later than \<open>ExpiresAt\<close>, a cleanup at exactly
  \<open>ExpiresAt\<close> keeps the entry, and \<open>Stats\<close> at exactly \<open>ExpiresAt\<close> counts as many
  expired entries as it would without the entry.
\<close>

theorem expiry_instant_is_a_hit:
  assumes "fmlookup (cache c) imageURI = Some entry"
  shows "Get (ExpiresAt entry) c imageURI = Data entry \<and>
    (Data entry \<noteq> None \<longrightarrow> (\<forall>t. (Get t c imageURI = None) = (ExpiresAt entry < t))) \<and>
    fmlookup (cache (cleanup (ExpiresAt entry) c)) imageURI = Some entry \<and>
    snd (Stats (ExpiresAt entry) c)
      = snd (Stats (ExpiresAt entry) (c\<lparr>cache := fmdrop imageURI (cache c)\<rparr>))"
proof -
  have hit: "Get (ExpiresAt entry) c imageURI = Data entry"
    using assms by (simp add: Get_def After_def)
  have miss: "Data entry \<noteq> None
      \<longrightarrow> (\<forall>t. (Get t c imageURI = None) = (ExpiresAt entry < t))"
    using assms by (simp add: Get_def After_def)
  have kept: "fmlookup (cache (cleanup (ExpiresAt entry) c)) imageURI = Some entry"
    using assms by (simp add: cleanup_cache expired_def After_def)
  have "{k \<in> fmdom' (cache c). expired (ExpiresAt entry) (cache c) k}
      = {k \<in> fmdom' (fmdrop imageURI (cache c)).
           expired (ExpiresAt entry) (fmdrop imageURI (cache c)) k}"
    using assms by (auto simp: expired_def After_def fmdom'I split: option.splits)
  then have uncounted: "snd (Stats (ExpiresAt entry) c)
           = snd (Stats (ExpiresAt entry) (c\<lparr>cache := fmdrop imageURI (cache c)\<rparr>))"
    by (simp add: Stats_count)
  from hit miss kept uncounted show ?thesis by blast
qed

theorem expiry_instant_is_a_hit_witness:
  "fmlookup (cache mixed_cache) ''fresh''
     = Some \<lparr>Data = Some (vuln_of ''fresh''), ExpiresAt = 5\<rparr> \<and>
   Get 5 mixed_cache ''fresh'' = Some (vuln_of ''fresh'') \<and>
   Get 6 mixed_cache ''fresh'' = None \<and>
   fmlookup (cache (cleanup 5 mixed_cache)) ''fresh''
     = Some \<lparr>Data = Some (vuln_of ''fresh''), ExpiresAt = 5\<rparr> \<and>
   snd (Stats 5 mixed_cache) = 1"
proof -
  have l: "fmlookup (cache mixed_cache) ''fresh''
      = Some \<lparr>Data = Some (vuln_of ''fresh''), ExpiresAt = 5\<rparr>"
    by (simp add: mixed_cache_def)
  have s: "snd (Stats 5 (mixed_cache\<lparr>cache := fmdrop ''fresh'' (cache mixed_cache)\<rparr>)) = 1"
    by code_simp
  from expiry_instant_is_a_hit [OF l] l s show ?thesis by simp
qed

subsection \<open>Cleanup\<close>

text \<open>
  Claim C8, as stated, fails when time passes between the two runs: an entry that
  was still alive at the first run and has expired by the second is removed by the
  second. In \<open>mixed_cache\<close> the entry \<open>fresh\<close> expires at 5; a cleanup at 3 keeps it
  and a cleanup at 7 right after, with no \<open>Set\<close> between, deletes it.
\<close>

theorem second_cleanup_counterexample:
  "(3::int) \<le> 7 \<and>
   fmlookup (cache (cleanup 3 mixed_cache)) ''fresh''
     = Some \<lparr>Data = Some (vuln_of ''fresh''), ExpiresAt = 5\<rparr> \<and>
   fmlookup (cache (cleanup 7 (cleanup 3 mixed_cache))) ''fresh'' = None \<and>
   cleanup 7 (cleanup 3 mixed_cache) \<noteq> cleanup 3 mixed_cache"
  by code_simp

text \<open>
  Claim C8, amended. A cleanup at \<open>now1\<close> removes exactly the entries whose
  \<open>ExpiresAt\<close> is before \<open>now1\<close>. A second cleanup at \<open>now2\<close>, with no \<open>Set\<close>
  between, changes nothing, and \<open>Stats\<close> at \<open>now2\<close> counts no expired entry, provided
  no entry that was alive at \<open>now1\<close> has expired by \<open>now2\<close>; this is so in particular
  when both read the same instant.
\<close>

theorem cleanup_twice:
  "(\<forall>k. fmlookup (cache (cleanup now1 c)) k =
      (case fmlookup (cache c) k of
         None \<Rightarrow> None
       | Some entry \<Rightarrow> if After now1 (ExpiresAt entry) then None else Some entry)) \<and>
   ((\<forall>k entry. fmlookup (cache c) k = Some entry \<longrightarrow> \<not> After now1 (ExpiresAt entry)
        \<longrightarrow> \<not> After now2 (ExpiresAt entry)) \<longrightarrow>
      cleanup now2 (cleanup now1 c) = cleanup now1 c \<and>
      snd (Stats now2 (cleanup now1 c)) = 0) \<and>
   cleanup now1 (cleanup now1 c) = cleanup now1 c \<and>
   snd (Stats now1 (cleanup now1 c)) = 0"
proof -
  have survivors: "\<not> After now1 (ExpiresAt entry)"
    if "fmlookup (cache (cleanup now1 c)) k = Some entry" for k entry
    using that by (auto simp: lookup_cleanup split: option.splits if_splits)
  have same: "cleanup now1 (cleanup now1 c) = cleanup now1 c"
    by (rule cleanup_noop) (rule survivors)
  have zero: "snd (Stats now1 (cleanup now1 c)) = 0"
    by (rule Stats_none_expired) (rule survivors)
  have later: "cleanup now2 (cleanup now1 c) = cleanup now1 c \<and>
      snd (Stats now2 (cleanup now1 c)) = 0"
    if H: "\<forall>k entry. fmlookup (cache c) k = Some entry \<longrightarrow> \<not> After now1 (ExpiresAt entry)
        \<longrightarrow> \<not> After now2 (ExpiresAt entry)"
  proof -
    have alive: "\<not> After now2 (ExpiresAt entry)"
      if "fmlookup (cache (cleanup now1 c)) k = Some entry" for k entry
      using that H by (auto simp: lookup_cleanup split: option.splits if_splits)
    show ?thesis
      using cleanup_noop [of "cleanup now1 c" now2] Stats_none_expired [of "cleanup now1 c" now2]
        alive by blast
  qed
  from lookup_cleanup [of now1 c] same zero later show ?thesis by blast
qed

theorem cleanup_twice_witness:
  "fmlookup (cache (cleanup 3 mixed_cache)) ''expired1'' = None \<and>
   fmlookup (cache (cleanup 3 mixed_cache)) ''fresh''
      = Some \<lparr>Data = Some (vuln_of ''fresh''), ExpiresAt = 5\<rparr> \<and>
   cleanup 4 (cleanup 3 mixed_cache) = cleanup 3 mixed_cache \<and>
   snd (Stats 4 (cleanup 3 mixed_cache)) = 0 \<and>
   cleanup 3 (cleanup 3 mixed_cache) = cleanup 3 mixed_cache \<and>
   snd (Stats 3 (cleanup 3 mixed_cache)) = 0"
proof -
  have H: "\<forall>k entry. fmlookup (cache mixed_cache) k = Some entry
      \<longrightarrow> \<not> After 3 (ExpiresAt entry) \<longrightarrow> \<not> After 4 (ExpiresAt entry)"
    by (auto simp: mixed_cache_def After_def split: if_splits)
  have l1: "fmlookup (cache mixed_cache) ''expired1''
      = Some \<lparr>Data = Some (vuln_of ''expired1''), ExpiresAt = 1\<rparr>"
    by (simp add: mixed_cache_def)
  have l2: "fmlookup (cache mixed_cache) ''fresh''
      = Some \<lparr>Data = Some (vuln_of ''fresh''), ExpiresAt = 5\<rparr>"
    by (simp add: mixed_cache_def)
  from cleanup_twice [of 3 mixed_cache 4] H l1 l2 show ?thesis
    by (simp add: After_def)
qed

section \<open>Facts about the fetch path\<close>

text \<open>
  Claim C3. When the first call of \<open>getImageVulnerability\<close> for an image misses the
  cache, gets a result from the source and stores it, a second call for the same image
  whose \<open>Get\<close> reads the clock within the TTL of that entry makes no call to the
  source, whatever the source would answer then, and returns the same result. The two
  calls together call the source once.
\<close>

theorem second_fetch_served_from_cache:
  assumes miss: "Get tGet1 (engine_cache e) imageURI = None"
    and fetched: "src1 imageURI = Inr (Some v)"
    and window: "tGet2 \<le> Add tSet1 (ttl (engine_cache e))"
  shows "\<exists>e1. getImageVulnerability src1 tGet1 tSet1 imageURI e = (Inr (Some v), e1, [imageURI]) \<and>
      getImageVulnerability src2 tGet2 tSet2 imageURI e1 = (Inr (Some v), e1, [])"
proof -
  let ?e1 = "e\<lparr>engine_cache := Set tSet1 imageURI (Some v) (engine_cache e)\<rparr>"
  have first: "getImageVulnerability src1 tGet1 tSet1 imageURI e
      = (Inr (Some v), ?e1, [imageURI])"
    using miss fetched by (simp add: getImageVulnerability_def)
  have "Get tGet2 (engine_cache ?e1) imageURI = Some v"
    using window by (simp add: Get_Set_same After_def)
  then have "getImageVulnerability src2 tGet2 tSet2 imageURI ?e1 = (Inr (Some v), ?e1, [])"
    by (simp add: getImageVulnerability_def)
  with first show ?thesis by blast
qed

theorem second_fetch_served_from_cache_witness:
  "Get 100 (engine_cache NewEngine) ''app1:v1'' = None \<and>
   mock_source ''app1:v1'' = Inr (Some (vuln_of ''app1:v1'')) \<and>
   200 \<le> Add 101 (ttl (engine_cache NewEngine)) \<and>
   (\<exists>e1. getImageVulnerability mock_source 100 101 ''app1:v1'' NewEngine
            = (Inr (Some (vuln_of ''app1:v1'')), e1, [''app1:v1'']) \<and>
         getImageVulnerability broken_source 200 201 ''app1:v1'' e1
            = (Inr (Some (vuln_of ''app1:v1'')), e1, []))"
proof -
  have h1: "Get 100 (engine_cache NewEngine) ''app1:v1'' = None"
    by (simp add: Get_def NewEngine_def NewVulnerabilityCache_def)
  have h2: "mock_source ''app1:v1'' = Inr (Some (vuln_of ''app1:v1''))"
    by (simp add: mock_source_def)
  have h3: "200 \<le> Add 101 (ttl (engine_cache NewEngine))"
    by (simp add: Add_def NewEngine_def NewVulnerabilityCache_def Minute_def)
  from second_fetch_served_from_cache [of 100 NewEngine "''app1:v1''" mock_source
      "vuln_of ''app1:v1''" 200 101 broken_source 201, OF h1 h2 h3] h1 h2 h3
  show ?thesis by blast
qed

text \<open>
  Outside the condition of C3: a first call that fails stores nothing, and a source that
  returns a nil pointer with a nil error has the nil stored, which \<open>Get\<close> hands back
  and the engine takes for a miss. In both cases the second call asks the source
  again.
\<close>

lemma failed_first_fetch_is_retried:
  assumes "Get tGet1 (engine_cache e) imageURI = None" "src1 imageURI = Inl err"
    and "Get tGet2 (engine_cache e) imageURI = None"
  shows "getImageVulnerability src1 tGet1 tSet1 imageURI e = (Inl err, e, [imageURI]) \<and>
    snd (snd (getImageVulnerability src2 tGet2 tSet2 imageURI e)) = [imageURI]"
  using assms by (simp add: getImageVulnerability_def split: sum.splits)

lemma nil_result_is_fetched_again:
  assumes "Get tGet1 (engine_cache e) imageURI = None" "src1 imageURI = Inr None"
  shows "\<exists>e1. getImageVulnerability src1 tGet1 tSet1 imageURI e = (Inr None, e1, [imageURI]) \<and>
    snd (snd (getImageVulnerability src2 tGet2 tSet2 imageURI e1)) = [imageURI]"
  using assms
  by (simp add: getImageVulnerability_def Get_Set_same split: sum.splits)

section \<open>Facts about the cycle\<close>

text \<open>
  Claim C1. When \<^verbatim>\<open>DiscoverImages\<close> returns an error, \<open>collectVulnerabilities\<close>
  returns that error and the engine as it was, for every engine: the map and the
  collection time that \<open>GetVulnerabilityData\<close> returns afterwards are those from
  before.
\<close>

theorem discovery_failure_keeps_snapshot:
  "collectVulnerabilities (Inl err) src clock sched tPublish e = (Some err, e) \<and>
   GetVulnerabilityData (snd (collectVulnerabilities (Inl err) src clock sched tPublish e))
     = GetVulnerabilityData e"
  by (simp add: collectVulnerabilities_def)

lemma lastCollectionTime_cycle:
  "lastCollectionTime (cycle inp e) = lastCollectionTime e \<or>
   lastCollectionTime (cycle inp e) = in_publishedAt inp"
  by (simp add: cycle_def collectVulnerabilities_def Let_def split: sum.splits)

lemma Start_first: "\<exists>rest. Start inputs e = e # rest"
  by (cases inputs) simp_all

text \<open>
  Claim C7. The clock readings taken at the publishes are the environment's: when
  they do not go back (each is at least the one before, and the first is at least the
  time the engine starts with), the collection time that \<open>GetVulnerabilityData\<close>
  returns never goes back over the states of the engine, whether a cycle published or
  failed at discovery.
\<close>

theorem lastCollectionTime_monotone:
  assumes "sorted (lastCollectionTime e # map in_publishedAt inputs)"
  shows "sorted (map (\<lambda>e'. snd (GetVulnerabilityData e')) (Start inputs e))"
  using assms
proof (induction inputs arbitrary: e)
  case Nil
  show ?case by simp
next
  case (Cons inp rest)
  let ?e' = "cycle inp e"
  from Cons.prems have le: "lastCollectionTime e \<le> in_publishedAt inp"
    and tail: "sorted (in_publishedAt inp # map in_publishedAt rest)"
    and all: "\<forall>t \<in> set (map in_publishedAt rest). lastCollectionTime e \<le> t"
    by auto
  have next_le: "lastCollectionTime e \<le> lastCollectionTime ?e'"
    using lastCollectionTime_cycle [of inp e] le by auto
  have "sorted (lastCollectionTime ?e' # map in_publishedAt rest)"
    using lastCollectionTime_cycle [of inp e] tail all by auto
  then have IH: "sorted (map (\<lambda>e'. snd (GetVulnerabilityData e')) (Start rest ?e'))"
    by (rule Cons.IH)
  obtain more where more: "Start rest ?e' = ?e' # more"
    using Start_first by blast
  have "\<forall>t \<in> set (map (\<lambda>e'. snd (GetVulnerabilityData e')) (Start rest ?e')).
      lastCollectionTime e \<le> t"
    using IH next_le unfolding more by (auto simp: GetVulnerabilityData_def)
  with IH show ?case by (simp add: GetVulnerabilityData_def)
qed

theorem lastCollectionTime_monotone_witness:
  "sorted (lastCollectionTime NewEngine # map in_publishedAt three_cycles) \<and>
   sorted (map (\<lambda>e'. snd (GetVulnerabilityData e')) (Start three_cycles NewEngine)) \<and>
   map (\<lambda>e'. snd (GetVulnerabilityData e')) (Start three_cycles NewEngine) = [0, 200, 200, 400]"
proof -
  have h: "sorted (lastCollectionTime NewEngine # map in_publishedAt three_cycles)"
    by (simp add: NewEngine_def three_cycles_def)
  have v: "map (\<lambda>e'. snd (GetVulnerabilityData e')) (Start three_cycles NewEngine)
      = [0, 200, 200, 400]"
    by code_simp
  from lastCollectionTime_monotone [OF h] h v show ?thesis by simp
qed


section \<open>Facts about the interleavings of a cycle\<close>

lemma run_append:
  "run src clock k (xs @ ys) s = run src clock (k + length xs) ys (run src clock k xs s)"
  by (induction xs arbitrary: k s) simp_all

lemma run_invariant:
  assumes step: "\<And>k ev s. Q s \<Longrightarrow> Q (exec src (clock k) ev s)"
    and init: "Q s"
  shows "Q (run src clock k evs s)"
  using init
proof (induction evs arbitrary: k s)
  case Nil
  then show ?case by simp
next
  case (Cons ev evs)
  from Cons.prems have "Q (exec src (clock k) ev s)" by (rule step)
  then show ?case by (simp add: Cons.IH)
qed

lemma length_workers_work: "length (workers (work src now i w s)) = length (workers s)"
  by (cases w) (simp_all add: setWorker_def split: option.splits sum.splits)

lemma length_workers_exec: "length (workers (exec src now ev s)) = length (workers s)"
  by (cases ev) (simp_all add: length_workers_work)

lemma length_workers_run: "length (workers (run src clock k evs s)) = length (workers s)"
  by (induction evs arbitrary: k s) (simp_all add: length_workers_exec)

lemma workers_work_other:
  "j \<noteq> i \<Longrightarrow> workers (work src now i w s) ! j = workers s ! j"
  by (cases w) (simp_all add: setWorker_def split: option.splits sum.splits)







text \<open>
  The actions of one goroutine between the semaphore and the map, run one after the
  other, are \<open>getImageVulnerability\<close>: the same result, the same engine afterwards.
  (\<open>t\<close> is the reading at the return of the source, which no action uses.)
\<close>

lemma goroutine_runs_getImageVulnerability:
  assumes i: "i < length (workers s)" and at: "workers s ! i = Acquired img"
    and call: "getImageVulnerability src tGet tSet (URI img) (eng s) = (r, e', calls)"
  shows "let s1 = exec src tGet (Work i) s; s2 = exec src t (Work i) s1;
             s3 = exec src tSet (Work i) s2
         in (case r of
               Inl err \<Rightarrow> workers s2 ! i = Finished \<and> eng s2 = e' \<and>
                 newVulnerabilityData s2 = newVulnerabilityData s
             | Inr vuln \<Rightarrow>
                 if calls = [] then workers s1 ! i = Returned img vuln \<and> eng s1 = e'
                 else workers s3 ! i = Returned img vuln \<and> eng s3 = e')"
proof (cases "Get tGet (engine_cache (eng s)) (URI img)")
  case (Some v)
  with i at call show ?thesis
    by (auto simp: getImageVulnerability_def setWorker_def Let_def)
next
  case None
  let ?s1 = "setWorker i (Calling img) s"
  have s1: "exec src tGet (Work i) s = ?s1" using i at None by simp
  have i1: "i < length (workers ?s1)" and w1: "workers ?s1 ! i = Calling img"
    using i by (simp_all add: setWorker_def)
  show ?thesis
  proof (cases "src (URI img)")
    case (Inl err)
    have s2: "exec src t (Work i) ?s1 = setWorker i Finished ?s1"
      using i1 w1 Inl by simp
    from call None Inl have "r = Inl err" "e' = eng s"
      by (simp_all add: getImageVulnerability_def)
    with i show ?thesis
      unfolding Let_def s1 s2 by (simp add: setWorker_def)
  next
    case (Inr vuln)
    let ?s2 = "setWorker i (Fetched img vuln) ?s1"
    have s2: "exec src t (Work i) ?s1 = ?s2"
      using i1 w1 Inr by simp
    have i2: "i < length (workers ?s2)" and w2: "workers ?s2 ! i = Fetched img vuln"
      using i by (simp_all add: setWorker_def)
    have s3: "exec src tSet (Work i) ?s2 = setWorker i (Returned img vuln)
        (?s2\<lparr>eng := (eng ?s2)\<lparr>engine_cache := Set tSet (URI img) vuln (engine_cache (eng ?s2))\<rparr>\<rparr>)"
      using i2 w2 by simp
    from call None Inr have "r = Inr vuln" "calls = [URI img]"
        "e' = (eng s)\<lparr>engine_cache := Set tSet (URI img) vuln (engine_cache (eng s))\<rparr>"
      by (simp_all add: getImageVulnerability_def)
    with i show ?thesis
      unfolding Let_def s1 s2 s3 by (simp add: setWorker_def)
  qed
qed

subsection \<open>The wait ends with every goroutine gone\<close>

lemma steps_left_le: "steps_left w \<le> 5"
  by (cases w) simp_all

lemma steps_left_0: "steps_left w = 0 \<Longrightarrow> w = Finished"
  by (cases w) simp_all

lemma blocked_exec:
  "i < length (workers s) \<Longrightarrow> \<not> can_move s i \<Longrightarrow> exec src now (Work i) s = s"
  by (auto simp: can_move_def)

lemma moving_exec:
  assumes "i < length (workers s)" "can_move s i"
  shows "(\<forall>img. workers (exec src now (Work i) s) ! i \<noteq> Spawned img) \<and>
    steps_left (workers (exec src now (Work i) s) ! i) \<le> steps_left (workers s ! i) - 1"
  using assms
  by (cases "workers s ! i")
    (auto simp: can_move_def setWorker_def split: option.splits sum.splits)

lemma workers_exec_other:
  "j \<noteq> i \<Longrightarrow> workers (exec src now (Work i) s) ! j = workers s ! j"
  by (simp add: workers_work_other)

lemma turn_other:
  "j \<noteq> i \<Longrightarrow> workers (run src clock k (replicate n (Work i)) s) ! j = workers s ! j"
  by (induction n arbitrary: k s) (simp_all add: workers_work_other)

lemma turn_blocked:
  "i < length (workers s) \<Longrightarrow> \<not> can_move s i
     \<Longrightarrow> run src clock k (replicate n (Work i)) s = s"
  by (induction n arbitrary: k) (simp_all add: blocked_exec del: exec.simps)

lemma turn_moving:
  assumes "i < length (workers s)" "can_move s i" "steps_left (workers s ! i) \<le> n"
  shows "workers (run src clock k (replicate n (Work i)) s) ! i = Finished"
  using assms
proof (induction n arbitrary: k s)
  case 0
  then show ?case by (simp add: steps_left_0)
next
  case (Suc n)
  let ?s1 = "exec src (clock k) (Work i) s"
  from moving_exec [OF Suc.prems(1,2), of src "clock k"]
  have not_spawned: "\<forall>img. workers ?s1 ! i \<noteq> Spawned img"
    and fewer: "steps_left (workers ?s1 ! i) \<le> steps_left (workers s ! i) - 1"
    by blast+
  have len: "i < length (workers ?s1)"
    using Suc.prems(1) by (simp add: length_workers_exec del: exec.simps)
  have mv: "can_move ?s1 i" using not_spawned by (simp add: can_move_def del: exec.simps)
  have "steps_left (workers ?s1 ! i) \<le> n" using fewer Suc.prems(3) by simp
  from Suc.IH [OF len mv this] show ?case by (simp del: exec.simps)
qed

text \<open>One turn: goroutine i is gone afterwards, or it was blocked and nothing changed.\<close>

lemma turn:
  assumes "i < length (workers s)"
  shows "(workers (run src clock k (replicate 5 (Work i)) s) ! i = Finished \<or>
          (run src clock k (replicate 5 (Work i)) s = s \<and> (\<exists>img. workers s ! i = Spawned img)))"
proof (cases "can_move s i")
  case True
  from turn_moving [OF assms True steps_left_le] show ?thesis by blast
next
  case False
  with turn_blocked [OF assms False] show ?thesis by (auto simp: can_move_def)
qed

lemma wgRound_Suc: "wgRound (Suc m) = wgRound m @ replicate 5 (Work m)"
  by (simp add: wgRound_def)

lemma first_round:
  assumes "m \<le> length (workers s)"
  shows "\<forall>j<m. parked (workers (run src clock k (wgRound m) s) ! j)"
  using assms
proof (induction m)
  case 0
  show ?case by simp
next
  case (Suc m)
  let ?s = "run src clock k (wgRound m) s"
  let ?k = "k + length (wgRound m)"
  have IH: "\<forall>j<m. parked (workers ?s ! j)" using Suc by simp
  have len: "m < length (workers ?s)" using Suc.prems by (simp add: length_workers_run)
  have eq: "run src clock k (wgRound (Suc m)) s = run src clock ?k (replicate 5 (Work m)) ?s"
    by (simp add: wgRound_Suc run_append)
  show ?case
  proof (intro allI impI)
    fix j assume "j < Suc m"
    show "parked (workers (run src clock k (wgRound (Suc m)) s) ! j)"
    proof (cases "j = m")
      case True
      with turn [OF len, of src clock ?k] show ?thesis
        unfolding eq by (auto simp: parked_def)
    next
      case False
      with \<open>j < Suc m\<close> have "j < m" by simp
      with IH have "parked (workers ?s ! j)" by simp
      with False show ?thesis unfolding eq by (simp add: turn_other)
    qed
  qed
qed

lemma parked_not_holding: "parked w \<Longrightarrow> \<not> holding w"
  by (auto simp: parked_def)

lemma second_round:
  assumes "m \<le> length (workers s)" "\<forall>j<length (workers s). parked (workers s ! j)"
  shows "(\<forall>j<m. workers (run src clock k (wgRound m) s) ! j = Finished) \<and>
    (\<forall>j<length (workers s). parked (workers (run src clock k (wgRound m) s) ! j))"
  using assms(1)
proof (induction m)
  case 0
  with assms(2) show ?case by (simp add: wgRound_def)
next
  case (Suc m)
  let ?s = "run src clock k (wgRound m) s"
  let ?k = "k + length (wgRound m)"
  have IH1: "\<forall>j<m. workers ?s ! j = Finished"
    and IH2: "\<forall>j<length (workers s). parked (workers ?s ! j)"
    using Suc by simp_all
  have lens: "length (workers ?s) = length (workers s)" by (simp add: length_workers_run)
  have len: "m < length (workers ?s)" using Suc.prems by (simp add: lens)
  have eq: "run src clock k (wgRound (Suc m)) s = run src clock ?k (replicate 5 (Work m)) ?s"
    by (simp add: wgRound_Suc run_append)
  have "\<forall>w \<in> set (workers ?s). \<not> holding w"
    using IH2 lens parked_not_holding by (fastforce simp: in_set_conv_nth)
  then have "filter holding (workers ?s) = []" by (simp add: filter_empty_conv)
  then have mv: "can_move ?s m" by (simp add: can_move_def semaphoreCapacity_def)
  have fin: "workers (run src clock ?k (replicate 5 (Work m)) ?s) ! m = Finished"
    by (rule turn_moving [OF len mv steps_left_le])
  show ?case
  proof (intro conjI allI impI)
    fix j assume "j < Suc m"
    then show "workers (run src clock k (wgRound (Suc m)) s) ! j = Finished"
      using fin IH1 unfolding eq by (cases "j = m") (simp_all add: turn_other)
  next
    fix j assume "j < length (workers s)"
    then show "parked (workers (run src clock k (wgRound (Suc m)) s) ! j)"
      using fin IH2 unfolding eq by (cases "j = m") (simp_all add: turn_other parked_def)
  qed
qed

lemma wgWait_finishes:
  assumes "n = length (workers s)"
  shows "\<forall>j<n. workers (run src clock k (wgWait n) s) ! j = Finished"
proof -
  let ?s1 = "run src clock k (wgRound n) s"
  have len1: "length (workers ?s1) = n" using assms by (simp add: length_workers_run)
  have "\<forall>j<n. parked (workers ?s1 ! j)"
    using first_round [of n s src clock k] assms by simp
  then have "\<forall>j<length (workers ?s1). parked (workers ?s1 ! j)" using len1 by simp
  from second_round [of n ?s1, OF _ this] len1
  show ?thesis by (simp add: wgWait_def run_append)
qed

lemma cycleEnd_all_finished:
  "set (workers (cycleEnd src clock sched images e)) \<subseteq> {Finished}"
proof -
  let ?s0 = "run src clock 0 sched (startCycle images e)"
  have len0: "length (workers ?s0) = length images"
    by (simp add: length_workers_run startCycle_def)
  have len: "length (workers (cycleEnd src clock sched images e)) = length images"
    by (simp add: cycleEnd_def length_workers_run startCycle_def)
  from wgWait_finishes [of "length images" ?s0 src clock "length sched"] len0
  have "\<forall>j<length images. workers (cycleEnd src clock sched images e) ! j = Finished"
    by (simp add: cycleEnd_def run_append)
  with len show ?thesis by (auto simp: in_set_conv_nth)
qed



subsection \<open>Key integrity of the snapshot\<close>

lemma list_all_update: "list_all P ws \<Longrightarrow> P w \<Longrightarrow> list_all P (ws[i := w])"
  using set_update_subset_insert [of ws i w] by (auto simp: list_all_iff)

lemma Get_hit_echoes:
  "cache_keys_ok c \<Longrightarrow> Get now c uri = Some v \<Longrightarrow> result_echoes uri (Some v)"
proof -
  assume ok: "cache_keys_ok c" and hit: "Get now c uri = Some v"
  from hit obtain entry where "fmlookup (cache c) uri = Some entry" "Data entry = Some v"
    by (auto simp: Get_def split: option.splits if_splits)
  with ok show ?thesis by (fastforce simp: cache_keys_ok_def fmpred_iff)
qed

lemma cache_keys_ok_Set:
  "cache_keys_ok c \<Longrightarrow> result_echoes uri vuln \<Longrightarrow> cache_keys_ok (Set now uri vuln c)"
  by (auto simp: cache_keys_ok_def Set_def fmpred_iff split: if_splits)

lemma cache_keys_ok_cleanup: "cache_keys_ok c \<Longrightarrow> cache_keys_ok (cleanup now c)"
  by (auto simp: cache_keys_ok_def cleanup_cache fmpred_iff split: if_splits)

lemma cycle_keys_ok_work:
  assumes "source_echoes src" "cycle_keys_ok s" "i < length (workers s)"
  shows "cycle_keys_ok (work src now i (workers s ! i) s)"
proof -
  from assms(2,3) have w: "worker_echoes (workers s ! i)"
    by (simp add: cycle_keys_ok_def list_all_length)
  show ?thesis
  proof (cases "workers s ! i")
    case (Spawned img)
    with assms(2) show ?thesis
      by (simp add: cycle_keys_ok_def setWorker_def list_all_update)
  next
    case (Acquired img)
    with assms(2) Get_hit_echoes [of "engine_cache (eng s)" now "URI img"] show ?thesis
      by (auto simp: cycle_keys_ok_def setWorker_def list_all_update split: option.splits)
  next
    case (Calling img)
    with assms(1,2) show ?thesis
      by (auto simp: cycle_keys_ok_def setWorker_def list_all_update source_echoes_def
          split: sum.splits)
  next
    case (Fetched img vuln)
    with assms(2) w show ?thesis
      by (simp add: cycle_keys_ok_def setWorker_def list_all_update cache_keys_ok_Set)
  next
    case (Returned img vuln)
    with assms(2) w show ?thesis
      by (auto simp: cycle_keys_ok_def setWorker_def list_all_update snapshot_keys_ok_def
          fmpred_iff split: if_splits)
  next
    case Finished
    with assms(2) show ?thesis by simp
  qed
qed

lemma cycle_keys_ok_exec:
  assumes "source_echoes src" "cycle_keys_ok s"
  shows "cycle_keys_ok (exec src now ev s)"
proof (cases ev)
  case (Work i)
  with assms show ?thesis by (simp add: cycle_keys_ok_work)
next
  case CleanupTick
  with assms(2) show ?thesis by (simp add: cycle_keys_ok_def cache_keys_ok_cleanup)
qed

lemma cycle_keys_ok_start:
  "cache_keys_ok (engine_cache e) \<Longrightarrow> cycle_keys_ok (startCycle images e)"
  by (simp add: cycle_keys_ok_def startCycle_def snapshot_keys_ok_def list_all_iff)

lemma engine_keys_ok_cycle:
  assumes "source_echoes (in_source inp)" "engine_keys_ok e"
  shows "engine_keys_ok (cycle inp e)"
proof (cases "in_discovered inp")
  case (Inl err)
  with assms(2) show ?thesis by (simp add: cycle_def collectVulnerabilities_def)
next
  case (Inr images)
  let ?s = "cycleEnd (in_source inp) (in_clock inp) (in_schedule inp) images e"
  have "cycle_keys_ok (startCycle images e)"
    using assms(2) by (simp add: engine_keys_ok_def cycle_keys_ok_start)
  then have "cycle_keys_ok ?s"
    unfolding cycleEnd_def
    by (rule run_invariant [rotated]) (rule cycle_keys_ok_exec [OF assms(1)])
  with Inr show ?thesis
    by (simp add: cycle_def collectVulnerabilities_def Let_def engine_keys_ok_def
        cycle_keys_ok_def)
qed

lemma engine_keys_ok_Start:
  assumes "\<forall>inp \<in> set inputs. source_echoes (in_source inp)" "engine_keys_ok e"
  shows "\<forall>e' \<in> set (Start inputs e). engine_keys_ok e'"
  using assms
proof (induction inputs arbitrary: e)
  case Nil
  then show ?case by simp
next
  case (Cons inp rest)
  then have "engine_keys_ok (cycle inp e)" by (simp add: engine_keys_ok_cycle)
  with Cons show ?case by simp
qed

lemma engine_keys_ok_New: "engine_keys_ok NewEngine"
  by (simp add: engine_keys_ok_def NewEngine_def NewVulnerabilityCache_def
      cache_keys_ok_def snapshot_keys_ok_def)

text \<open>
  Claim C5. Let an engine run from its creation through any cycles, each with a source
  that echoes the requested URI in every result it returns. Then in every state of
  the engine, every entry of the map that \<open>GetVulnerabilityData\<close> returns holds a
  result whose \<open>ImageURI\<close> is the entry's key. The proof keeps the same property of
  the cache and of the results the goroutines carry, so it covers an entry whose
  result came from the cache as well as one that was fetched.
\<close>

theorem snapshot_key_integrity:
  assumes "\<forall>inp \<in> set inputs. source_echoes (in_source inp)"
  shows "\<forall>e \<in> set (Start inputs NewEngine). \<forall>k d.
      fmlookup (fst (GetVulnerabilityData e)) k = Some d
        \<longrightarrow> (\<exists>v. ImageVulnerability d = Some v \<and> ImageURI v = k)"
proof (intro ballI allI impI)
  fix e k d
  assume e: "e \<in> set (Start inputs NewEngine)"
    and d: "fmlookup (fst (GetVulnerabilityData e)) k = Some d"
  from engine_keys_ok_Start [OF assms engine_keys_ok_New] e have "engine_keys_ok e" by blast
  with d have "result_echoes k (ImageVulnerability d)"
    by (auto simp: engine_keys_ok_def snapshot_keys_ok_def fmpred_iff GetVulnerabilityData_def)
  then show "\<exists>v. ImageVulnerability d = Some v \<and> ImageURI v = k"
    by (simp add: result_echoes_def split: option.splits)
qed

theorem snapshot_key_integrity_witness:
  "list_all (\<lambda>inp. source_echoes (in_source inp)) three_cycles \<and>
   list_all (\<lambda>e. snapshot_keys_ok (fst (GetVulnerabilityData e))) (Start three_cycles NewEngine) \<and>
   map (\<lambda>e. fmdom (fst (GetVulnerabilityData e))) (Start three_cycles NewEngine)
     = [{||}, {|''app1:v1'', ''app3:v3''|}, {|''app1:v1'', ''app3:v3''|}, {|''app1:v1''|}]"
proof -
  have echo: "source_echoes failing_source" "source_echoes mock_source"
      "source_echoes broken_source"
    by (simp_all add: source_echoes_def failing_source_def mock_source_def broken_source_def
        result_echoes_def vuln_of_def)
  then have h: "\<forall>inp \<in> set three_cycles. source_echoes (in_source inp)"
    by (simp add: three_cycles_def)
  have keys: "map (\<lambda>e. fmdom (fst (GetVulnerabilityData e))) (Start three_cycles NewEngine)
     = [{||}, {|''app1:v1'', ''app3:v3''|}, {|''app1:v1'', ''app3:v3''|}, {|''app1:v1''|}]"
    by code_simp
  from snapshot_key_integrity [OF h] have
    "\<forall>e \<in> set (Start three_cycles NewEngine).
        snapshot_keys_ok (fst (GetVulnerabilityData e))"
    by (force simp: snapshot_keys_ok_def fmpred_iff result_echoes_def)
  with h keys show ?thesis by (simp add: list_all_iff)
qed



subsection \<open>One failing image\<close>

lemma tracks_mono:
  "tracks uF data img w \<Longrightarrow> fmdom' data \<subseteq> fmdom' data' \<Longrightarrow> tracks uF data' img w"
  by (cases w) auto

lemma Get_Set_other: "uri \<noteq> uri' \<Longrightarrow> Get t (Set now uri v c) uri' = Get t c uri'"
  by (simp add: Get_def Set_def)

lemma Get_cleanup_None: "Get t c uri = None \<Longrightarrow> Get t (cleanup now c) uri = None"
  by (auto simp: Get_def lookup_cleanup split: option.splits if_splits)

lemma isolating_step:
  assumes inv: "isolating images uF clock s" and i: "i < length images"
    and ws: "workers s' = (workers s)[i := w']"
    and w': "tracks uF (newVulnerabilityData s') (images ! i) w'"
    and grow: "fmdom' (newVulnerabilityData s) \<subseteq> fmdom' (newVulnerabilityData s')"
    and within: "fmdom' (newVulnerabilityData s') \<subseteq> URI ` set images - {uF}"
    and miss: "\<forall>k. Get (clock k) (engine_cache (eng s')) uF = None"
  shows "isolating images uF clock s'"
proof -
  from inv have len: "length (workers s) = length images"
    and tr: "\<forall>j<length images. tracks uF (newVulnerabilityData s) (images ! j) (workers s ! j)"
    by (simp_all add: isolating_def)
  have "tracks uF (newVulnerabilityData s') (images ! j) (workers s' ! j)"
    if j: "j < length images" for j
  proof (cases "j = i")
    case True
    with w' ws i len show ?thesis by simp
  next
    case False
    with tr j have "tracks uF (newVulnerabilityData s) (images ! j) (workers s' ! j)"
      by (simp add: ws)
    then show ?thesis using grow by (rule tracks_mono)
  qed
  with len ws within miss show ?thesis by (simp add: isolating_def)
qed

lemma isolating_work:
  assumes inv: "isolating images uF clock s" and i: "i < length images"
    and fails: "src uF = Inl err"
    and others: "\<forall>img \<in> set images. URI img \<noteq> uF \<longrightarrow> (\<exists>vuln. src (URI img) = Inr vuln)"
  shows "isolating images uF clock (work src (clock k) i (workers s ! i) s)"
proof -
  from inv i have w: "tracks uF (newVulnerabilityData s) (images ! i) (workers s ! i)"
    and within: "fmdom' (newVulnerabilityData s) \<subseteq> URI ` set images - {uF}"
    and miss: "\<forall>k. Get (clock k) (engine_cache (eng s)) uF = None"
    by (simp_all add: isolating_def)
  from i have mem: "images ! i \<in> set images" by simp
  show ?thesis
  proof (cases "workers s ! i")
    case (Spawned img)
    show ?thesis
    proof (cases "length (filter holding (workers s)) < semaphoreCapacity")
      case True
      with Spawned w within miss show ?thesis
        by (intro isolating_step [OF inv i, of _ "Acquired img"]) (simp_all add: setWorker_def)
    next
      case False
      with Spawned inv show ?thesis by simp
    qed
  next
    case (Acquired img)
    show ?thesis
    proof (cases "Get (clock k) (engine_cache (eng s)) (URI img)")
      case None
      with Acquired w within miss show ?thesis
        by (intro isolating_step [OF inv i, of _ "Calling img"]) (simp_all add: setWorker_def)
    next
      case (Some v)
      with miss have "URI img \<noteq> uF" by auto
      with Some Acquired w within miss show ?thesis
        by (intro isolating_step [OF inv i, of _ "Returned img (Some v)"])
          (simp_all add: setWorker_def)
    qed
  next
    case (Calling img)
    with w have img: "img = images ! i" by simp
    show ?thesis
    proof (cases "src (URI img)")
      case (Inl e)
      with others mem img have "URI (images ! i) = uF" by fastforce
      with Inl Calling within miss show ?thesis
        by (intro isolating_step [OF inv i, of _ Finished]) (simp_all add: setWorker_def)
    next
      case (Inr vuln)
      with fails have "URI img \<noteq> uF" by auto
      with Inr Calling img within miss show ?thesis
        by (intro isolating_step [OF inv i, of _ "Fetched img vuln"])
          (simp_all add: setWorker_def)
    qed
  next
    case (Fetched img vuln)
    with w have "URI img \<noteq> uF" and "img = images ! i" by auto
    with Fetched within miss show ?thesis
      by (intro isolating_step [OF inv i, of _ "Returned img vuln"])
        (simp_all add: setWorker_def Get_Set_other)
  next
    case (Returned img vuln)
    with w have "URI img \<noteq> uF" and "img = images ! i" by auto
    with Returned within miss mem show ?thesis
      by (intro isolating_step [OF inv i, of _ Finished])
        (auto simp: setWorker_def)
  next
    case Finished
    with inv show ?thesis by simp
  qed
qed

lemma isolating_exec:
  assumes inv: "isolating images uF clock s"
    and fails: "src uF = Inl err"
    and others: "\<forall>img \<in> set images. URI img \<noteq> uF \<longrightarrow> (\<exists>vuln. src (URI img) = Inr vuln)"
  shows "isolating images uF clock (exec src (clock k) ev s)"
proof (cases ev)
  case (Work i)
  from inv have "length (workers s) = length images" by (simp add: isolating_def)
  with Work isolating_work [OF inv _ fails others] inv show ?thesis by simp
next
  case CleanupTick
  with inv show ?thesis by (simp add: isolating_def Get_cleanup_None)
qed

lemma isolating_start:
  "\<forall>k. Get (clock k) (engine_cache e) uF = None \<Longrightarrow> isolating images uF clock (startCycle images e)"
  by (simp add: isolating_def startCycle_def)

lemma isolating_cycleEnd:
  assumes miss: "\<forall>k. Get (clock k) (engine_cache e) uF = None"
    and fails: "src uF = Inl err"
    and others: "\<forall>img \<in> set images. URI img \<noteq> uF \<longrightarrow> (\<exists>vuln. src (URI img) = Inr vuln)"
  shows "fmdom' (newVulnerabilityData (cycleEnd src clock sched images e))
     = URI ` set images - {uF}"
proof -
  let ?s = "cycleEnd src clock sched images e"
  have inv: "isolating images uF clock ?s"
    unfolding cycleEnd_def
    by (rule run_invariant [where Q = "isolating images uF clock"])
      (rule isolating_exec [OF _ fails others], assumption, rule isolating_start [OF miss])
  then have len: "length (workers ?s) = length images"
    and tr: "\<forall>i<length images. tracks uF (newVulnerabilityData ?s) (images ! i) (workers ?s ! i)"
    and within: "fmdom' (newVulnerabilityData ?s) \<subseteq> URI ` set images - {uF}"
    by (simp_all add: isolating_def)
  have "URI img \<in> fmdom' (newVulnerabilityData ?s)"
    if "img \<in> set images" "URI img \<noteq> uF" for img
  proof -
    from that(1) obtain i where i: "i < length images" "images ! i = img"
      by (auto simp: in_set_conv_nth)
    with len have "workers ?s ! i \<in> set (workers ?s)" by simp
    with cycleEnd_all_finished [of src clock sched images e]
    have "workers ?s ! i = Finished" by blast
    with tr i that(2) show ?thesis by auto
  qed
  with within show ?thesis by auto
qed

text \<open>
  Claim C2. Let discovery return \<open>images\<close> with pairwise distinct URIs, let the
  source return an error for the image \<open>failed\<close> and a result for every other image,
  and let the cache have nothing to serve for \<open>failed\<close> at any clock reading of the
  cycle. Then, whatever the interleaving, \<open>collectVulnerabilities\<close> returns a nil
  error, and the map that \<open>GetVulnerabilityData\<close> returns afterwards has
  \<open>length images - 1\<close> entries: one under the URI of every other image and none
  under the URI of \<open>failed\<close>.
\<close>

theorem one_failure_is_isolated:
  assumes dist: "distinct (map URI images)"
    and failed: "failed \<in> set images"
    and fails: "src (URI failed) = Inl err"
    and others: "\<forall>img \<in> set images. img \<noteq> failed \<longrightarrow> (\<exists>vuln. src (URI img) = Inr vuln)"
    and miss: "\<forall>k. Get (clock k) (engine_cache e) (URI failed) = None"
  shows "\<exists>e'. collectVulnerabilities (Inr images) src clock sched tPublish e = (None, e') \<and>
    fcard (fmdom (fst (GetVulnerabilityData e'))) = length images - 1 \<and>
    fmlookup (fst (GetVulnerabilityData e')) (URI failed) = None \<and>
    (\<forall>img \<in> set images. img \<noteq> failed
       \<longrightarrow> fmlookup (fst (GetVulnerabilityData e')) (URI img) \<noteq> None)"
proof -
  let ?s = "cycleEnd src clock sched images e"
  let ?e' = "(eng ?s)\<lparr>vulnerabilityData := newVulnerabilityData ?s, lastCollectionTime := tPublish\<rparr>"
  have inj: "inj_on URI (set images)" using dist by (simp add: distinct_map)
  have others': "\<forall>img \<in> set images. URI img \<noteq> URI failed \<longrightarrow> (\<exists>vuln. src (URI img) = Inr vuln)"
    using others by auto
  have dom: "fmdom' (newVulnerabilityData ?s) = URI ` set images - {URI failed}"
    by (rule isolating_cycleEnd [OF miss fails others'])
  have ret: "collectVulnerabilities (Inr images) src clock sched tPublish e = (None, ?e')"
    by (simp add: collectVulnerabilities_def Let_def)
  have data: "fst (GetVulnerabilityData ?e') = newVulnerabilityData ?s"
    by (simp add: GetVulnerabilityData_def)
  have "card (URI ` set images) = length images"
    using dist by (metis distinct_card length_map set_map)
  moreover have "URI failed \<in> URI ` set images" using failed by simp
  ultimately have "card (URI ` set images - {URI failed}) = length images - 1"
    by simp
  then have count: "fcard (fmdom (newVulnerabilityData ?s)) = length images - 1"
    using dom by (simp add: fcard.rep_eq fmdom'_alt_def)
  have absent: "fmlookup (newVulnerabilityData ?s) (URI failed) = None"
    using dom by (metis Diff_iff fmdom'_notD insertI1)
  have present: "fmlookup (newVulnerabilityData ?s) (URI img) \<noteq> None"
    if "img \<in> set images" "img \<noteq> failed" for img
  proof -
    from that failed inj have "URI img \<noteq> URI failed" by (auto dest: inj_onD)
    with that(1) dom have "URI img \<in> fmdom' (newVulnerabilityData ?s)" by simp
    then show ?thesis by (auto simp: fmlookup_dom'_iff)
  qed
  from ret count absent present show ?thesis
    by (intro exI [of _ ?e']) (simp only: data, blast)
qed

theorem one_failure_is_isolated_witness:
  "distinct (map URI three_images) \<and>
   image_of ''app2:v2'' \<in> set three_images \<and>
   failing_source (URI (image_of ''app2:v2'')) = Inl (Error ''vulnerability source error'') \<and>
   failing_source (URI (image_of ''app1:v1'')) = Inr (Some (vuln_of ''app1:v1'')) \<and>
   failing_source (URI (image_of ''app3:v3'')) = Inr (Some (vuln_of ''app3:v3'')) \<and>
   (\<exists>e'. collectVulnerabilities (Inr three_images) failing_source tick_clock some_schedule 200
            NewEngine = (None, e') \<and>
      fcard (fmdom (fst (GetVulnerabilityData e'))) = 2 \<and>
      fmlookup (fst (GetVulnerabilityData e')) ''app2:v2'' = None \<and>
      fmlookup (fst (GetVulnerabilityData e')) ''app1:v1'' \<noteq> None \<and>
      fmlookup (fst (GetVulnerabilityData e')) ''app3:v3'' \<noteq> None)"
proof -
  have h1: "distinct (map URI three_images)"
    by (simp add: three_images_def image_of_def)
  have h2: "image_of ''app2:v2'' \<in> set three_images"
    by (simp add: three_images_def)
  have h3: "failing_source (URI (image_of ''app2:v2'')) = Inl (Error ''vulnerability source error'')"
    by (simp add: failing_source_def image_of_def)
  have h4: "\<forall>img \<in> set three_images. img \<noteq> image_of ''app2:v2''
      \<longrightarrow> (\<exists>vuln. failing_source (URI img) = Inr vuln)"
    by (simp add: three_images_def failing_source_def image_of_def)
  have h5: "\<forall>k. Get (tick_clock k) (engine_cache NewEngine) (URI (image_of ''app2:v2'')) = None"
    by (simp add: Get_def NewEngine_def NewVulnerabilityCache_def)
  have s1: "failing_source (URI (image_of ''app1:v1'')) = Inr (Some (vuln_of ''app1:v1''))"
    and s3: "failing_source (URI (image_of ''app3:v3'')) = Inr (Some (vuln_of ''app3:v3''))"
    by (simp_all add: failing_source_def image_of_def)
  from one_failure_is_isolated [OF h1 h2 h3 h4 h5, of some_schedule 200]
  obtain e' where e': "collectVulnerabilities (Inr three_images) failing_source tick_clock
        some_schedule 200 NewEngine = (None, e')"
      "fcard (fmdom (fst (GetVulnerabilityData e'))) = length three_images - 1"
      "fmlookup (fst (GetVulnerabilityData e')) (URI (image_of ''app2:v2'')) = None"
      "\<forall>img \<in> set three_images. img \<noteq> image_of ''app2:v2''
         \<longrightarrow> fmlookup (fst (GetVulnerabilityData e')) (URI img) \<noteq> None"
    by blast
  from e'(2) have c: "fcard (fmdom (fst (GetVulnerabilityData e'))) = 2"
    by (simp add: three_images_def)
  from e'(3) have a: "fmlookup (fst (GetVulnerabilityData e')) ''app2:v2'' = None"
    by (simp add: image_of_def)
  from e'(4) have p: "fmlookup (fst (GetVulnerabilityData e')) ''app1:v1'' \<noteq> None"
      "fmlookup (fst (GetVulnerabilityData e')) ''app3:v3'' \<noteq> None"
    by (simp_all add: three_images_def image_of_def)
  from h1 h2 h3 s1 s3 e'(1) c a p show ?thesis by blast
qed

subsection \<open>The cache entry of a failing image\<close>

lemma run_invariant_on:
  assumes "\<forall>ev \<in> set evs. \<forall>k s. Q s \<longrightarrow> Q (exec src (clock k) ev s)" "Q s"
  shows "Q (run src clock k evs s)"
  using assms by (induction evs arbitrary: k s) simp_all

lemma untouched_work:
  assumes inv: "untouched uF entry0 swept s" and i: "i < length (workers s)"
    and fails: "src uF = Inl err"
  shows "untouched uF entry0 swept (work src now i (workers s ! i) s)"
proof -
  from inv have ws: "list_all (\<lambda>w. \<not> stores_under uF w) (workers s)"
    and entry: "fmlookup (cache (engine_cache (eng s))) uF = entry0 \<or>
       swept \<and> fmlookup (cache (engine_cache (eng s))) uF = None"
    by (simp_all add: untouched_def)
  have upd: "list_all (\<lambda>w. \<not> stores_under uF w) ((workers s)[i := w])"
    if "\<not> stores_under uF w" for w
    using ws that by (rule list_all_update)
  show ?thesis
  proof (cases "workers s ! i")
    case (Spawned img)
    with entry upd [of "Acquired img"] inv show ?thesis
      by (simp add: untouched_def setWorker_def)
  next
    case (Acquired img)
    with entry upd [of "Calling img"] upd [of "Returned img v" for v] show ?thesis
      by (simp add: untouched_def setWorker_def split: option.splits)
  next
    case (Calling img)
    show ?thesis
    proof (cases "src (URI img)")
      case (Inl e)
      with Calling entry upd [of Finished] show ?thesis
        by (simp add: untouched_def setWorker_def)
    next
      case (Inr vuln)
      with fails have "URI img \<noteq> uF" by auto
      with Inr Calling entry upd [of "Fetched img vuln"] show ?thesis
        by (simp add: untouched_def setWorker_def)
    qed
  next
    case (Fetched img vuln)
    with ws i have "URI img \<noteq> uF"
      by (auto simp: list_all_length)
    with Fetched entry upd [of "Returned img vuln"] show ?thesis
      by (simp add: untouched_def setWorker_def Set_def)
  next
    case (Returned img vuln)
    with entry upd [of Finished] show ?thesis
      by (simp add: untouched_def setWorker_def)
  next
    case Finished
    with inv show ?thesis by simp
  qed
qed

lemma untouched_exec:
  assumes inv: "untouched uF entry0 swept s" and fails: "src uF = Inl err"
    and ev: "ev = CleanupTick \<longrightarrow> swept"
  shows "untouched uF entry0 swept (exec src now ev s)"
proof (cases ev)
  case (Work i)
  show ?thesis
  proof (cases "i < length (workers s)")
    case True
    from untouched_work [where src = src, OF inv True fails] Work True
    show ?thesis by simp
  next
    case False
    with Work inv show ?thesis by simp
  qed
next
  case CleanupTick
  with ev have swept by simp
  with CleanupTick inv show ?thesis
    by (auto simp: untouched_def lookup_cleanup split: option.splits)
qed

lemma CleanupTick_wgWait: "CleanupTick \<notin> set (wgWait n)"
  by (auto simp: wgWait_def wgRound_def)

lemma untouched_cycleEnd:
  assumes fails: "src uF = Inl err"
  shows "untouched uF (fmlookup (cache (engine_cache e)) uF) (CleanupTick \<in> set sched)
    (cycleEnd src clock sched images e)"
  unfolding cycleEnd_def
proof (rule run_invariant_on)
  show "untouched uF (fmlookup (cache (engine_cache e)) uF) (CleanupTick \<in> set sched)
      (startCycle images e)"
    by (simp add: untouched_def startCycle_def list_all_iff)
  show "\<forall>ev \<in> set (sched @ wgWait (length images)). \<forall>k s.
      untouched uF (fmlookup (cache (engine_cache e)) uF) (CleanupTick \<in> set sched) s \<longrightarrow>
      untouched uF (fmlookup (cache (engine_cache e)) uF) (CleanupTick \<in> set sched)
        (exec src (clock k) ev s)"
  proof (intro ballI allI impI)
    fix ev k s
    assume ev: "ev \<in> set (sched @ wgWait (length images))"
      and inv: "untouched uF (fmlookup (cache (engine_cache e)) uF) (CleanupTick \<in> set sched) s"
    from ev CleanupTick_wgWait [of "length images"]
    have "ev = CleanupTick \<longrightarrow> CleanupTick \<in> set sched" by auto
    with inv fails
    show "untouched uF (fmlookup (cache (engine_cache e)) uF) (CleanupTick \<in> set sched)
        (exec src (clock k) ev s)"
      by (rule untouched_exec [where src = src])
  qed
qed

text \<open>
  Claim C6. A call of \<open>getImageVulnerability\<close> that returns an error returns the
  engine, and with it the cache, as it found it; such a call is one that missed the
  cache and got an error from the source. Over a whole cycle whose source returns an
  error for \<open>imageURI\<close>, whatever the interleaving and the other images, the cache
  ends with the entry it had under \<open>imageURI\<close>, expired or not, and with none if it
  had none; only a pass of the cleanup goroutine during the cycle can have deleted
  it.
\<close>

theorem failed_fetch_leaves_cache:
  "(getImageVulnerability src tGet tSet imageURI e = (Inl err, e', calls) \<longrightarrow>
      e' = e \<and> Get tGet (engine_cache e) imageURI = None \<and> src imageURI = Inl err) \<and>
   (src imageURI = Inl err \<longrightarrow>
      (let after = snd (collectVulnerabilities (Inr images) src clock sched tPublish e) in
       fmlookup (cache (engine_cache after)) imageURI = fmlookup (cache (engine_cache e)) imageURI \<or>
       CleanupTick \<in> set sched \<and> fmlookup (cache (engine_cache after)) imageURI = None))"
proof -
  have call: "getImageVulnerability src tGet tSet imageURI e = (Inl err, e', calls) \<longrightarrow>
      e' = e \<and> Get tGet (engine_cache e) imageURI = None \<and> src imageURI = Inl err"
    by (auto simp: getImageVulnerability_def split: option.splits sum.splits)
  have cyc: "let after = snd (collectVulnerabilities (Inr images) src clock sched tPublish e) in
       fmlookup (cache (engine_cache after)) imageURI = fmlookup (cache (engine_cache e)) imageURI \<or>
       CleanupTick \<in> set sched \<and> fmlookup (cache (engine_cache after)) imageURI = None"
    if "src imageURI = Inl err"
    using untouched_cycleEnd [where src = src, OF that, of e sched clock images]
    by (simp add: collectVulnerabilities_def Let_def untouched_def)
  from call cyc show ?thesis by blast
qed

theorem failed_fetch_leaves_cache_witness:
  "getImageVulnerability broken_source 3 4 ''expired1'' stale_engine
     = (Inl (Error ''vulnerability source error''), stale_engine, [''expired1'']) \<and>
   Get 3 (engine_cache stale_engine) ''expired1'' = None \<and>
   broken_source ''expired1'' = Inl (Error ''vulnerability source error'') \<and>
   fmlookup (cache (engine_cache stale_engine)) ''expired1''
     = Some \<lparr>Data = Some (vuln_of ''expired1''), ExpiresAt = 1\<rparr> \<and>
   fmlookup (cache (engine_cache (snd (collectVulnerabilities
       (Inr [image_of ''expired1'', image_of ''fresh'']) broken_source tick_clock
       [Work 1, Work 0, Work 0] 200 stale_engine)))) ''expired1''
     = Some \<lparr>Data = Some (vuln_of ''expired1''), ExpiresAt = 1\<rparr>"
proof -
  have call: "getImageVulnerability broken_source 3 4 ''expired1'' stale_engine
     = (Inl (Error ''vulnerability source error''), stale_engine, [''expired1''])"
    by (simp add: getImageVulnerability_def Get_def stale_engine_def mixed_cache_def
        After_def broken_source_def)
  have src: "broken_source ''expired1'' = Inl (Error ''vulnerability source error'')"
    by (simp add: broken_source_def)
  have entry: "fmlookup (cache (engine_cache stale_engine)) ''expired1''
     = Some \<lparr>Data = Some (vuln_of ''expired1''), ExpiresAt = 1\<rparr>"
    by (simp add: stale_engine_def mixed_cache_def)
  from failed_fetch_leaves_cache [of broken_source 3 4 "''expired1''" stale_engine
      "Error ''vulnerability source error''" stale_engine "[''expired1'']"
      "[image_of ''expired1'', image_of ''fresh'']" tick_clock "[Work 1, Work 0, Work 0]" 200]
    call src entry
  show ?thesis by (simp add: Let_def)
qed


end
